theory Spec2Isabelle
  imports Main
begin

section \<open>Byte strings and the helpers of Go's \<open>strings\<close> package\<close>

text \<open>
  A Go string is a sequence of bytes, modelled as \<^typ>\<open>string\<close>. The gateway uses
  \<open>strings.TrimPrefix\<close>, \<open>strings.TrimSuffix\<close> and \<open>strings.Split\<close>; each is
  modelled by what the Go library computes. \<open>Split\<close> is only ever called with the
  one-byte separator \<open>"/"\<close>, so the separator is a single character here.
\<close>

definition HasPrefix :: "string \<Rightarrow> string \<Rightarrow> bool" where
  "HasPrefix s pre = (take (length pre) s = pre)"

definition TrimPrefix :: "string \<Rightarrow> string \<Rightarrow> string" where
  "TrimPrefix s pre = (if HasPrefix s pre then drop (length pre) s else s)"

definition HasSuffix :: "string \<Rightarrow> string \<Rightarrow> bool" where
  "HasSuffix s suf = (length suf \<le> length s \<and> drop (length s - length suf) s = suf)"

definition TrimSuffix :: "string \<Rightarrow> string \<Rightarrow> string" where
  "TrimSuffix s suf = (if HasSuffix s suf then take (length s - length suf) s else s)"

text \<open>
  \<open>strings.Split(s, "/")\<close>: the pieces of \<open>s\<close> between the separators. The result is
  never empty: the empty string splits into one empty piece.
\<close>

fun Split :: "string \<Rightarrow> char \<Rightarrow> string list" where
  "Split [] sep = [[]]"
| "Split (c # cs) sep =
     (if c = sep then [] # Split cs sep
      else (case Split cs sep of
              [] \<Rightarrow> [[c]]
            | piece # pieces \<Rightarrow> (c # piece) # pieces))"

text \<open>\<open>strings.Join(parts, "/")\<close>, used to state what an id looks like.\<close>

fun Join :: "string list \<Rightarrow> char \<Rightarrow> string" where
  "Join [] sep = []"
| "Join [p] sep = p"
| "Join (p # q # ps) sep = p @ sep # Join (q # ps) sep"

section \<open>The tree of keys\<close>

text \<open>
  \<open>type TreeNode struct { ID, Name, Value string; Children []*TreeNode }\<close>.
  Every child pointer is created by \<open>insertNode\<close> and stored in exactly one parent, so
  the pointer structure is a tree and is modelled as one. \<open>Value\<close> is a plain Go
  string: a node without a value holds the empty string, which is also what the JSON
  tag \<open>omitempty\<close> leaves out.
\<close>

datatype TreeNode =
  TreeNode (ID: string) (Name: string) (Value: string) (Children: "TreeNode list")

definition setValue :: "TreeNode \<Rightarrow> string \<Rightarrow> TreeNode" where
  "setValue n v = TreeNode (ID n) (Name n) v (Children n)"

definition setChildren :: "TreeNode \<Rightarrow> TreeNode list \<Rightarrow> TreeNode" where
  "setChildren n cs = TreeNode (ID n) (Name n) (Value n) cs"

text \<open>
  The inner loop of \<open>insertNode\<close>: the position of the first child whose name is the
  segment, or \<open>None\<close> when the loop ends with \<open>found == false\<close>.
\<close>

fun findChild :: "TreeNode list \<Rightarrow> string \<Rightarrow> nat option" where
  "findChild [] part = None"
| "findChild (child # rest) part =
     (if Name child = part then Some 0 else map_option Suc (findChild rest part))"

text \<open>
  \<open>insertNode(root, parts, value)\<close>. The Go loop walks down the tree, moving the
  pointer \<open>root\<close> to the child it found or created; the model rebuilds the spine on the
  way back. The test \<open>i == len(parts)-1\<close> is \<open>rest = []\<close>.
\<close>

fun insertNode :: "TreeNode \<Rightarrow> string list \<Rightarrow> string \<Rightarrow> TreeNode" where
  "insertNode root [] val = root"
| "insertNode root (part # rest) val =
     (case findChild (Children root) part of
        Some i \<Rightarrow>
          (let child = Children root ! i;
               child' = (if rest = [] then setValue child val else child)
           in setChildren root ((Children root)[i := insertNode child' rest val]))
      | None \<Rightarrow>
          (let newNode = TreeNode (TrimSuffix (ID root @ ''/'' @ part) ''/'') part
                           (if rest = [] then val else []) []
           in setChildren root (Children root @ [insertNode newNode rest val])))"

text \<open>The root of a listing request: \<open>&TreeNode{Name: "root"}\<close>.\<close>

definition freshRoot :: TreeNode where
  "freshRoot = TreeNode [] ''root'' [] []"

text \<open>A sequence of insertions against the same accumulating tree.\<close>

definition insertAll :: "TreeNode \<Rightarrow> (string list \<times> string) list \<Rightarrow> TreeNode" where
  "insertAll root ins = foldl (\<lambda>t (parts, val). insertNode t parts val) root ins"

section \<open>Observing a tree\<close>

text \<open>All nodes below the root, parents before children, children left to right.\<close>

fun nodes :: "TreeNode \<Rightarrow> TreeNode list" where
  "nodes (TreeNode i n v cs) = concat (map (\<lambda>c. c # nodes c) cs)"

text \<open>The same nodes, each with the names on its path from the root.\<close>

fun nodes_paths :: "TreeNode \<Rightarrow> (string list \<times> TreeNode) list" where
  "nodes_paths (TreeNode i n v cs) =
     concat (map (\<lambda>c. ([Name c], c) # map (\<lambda>(p, m). (Name c # p, m)) (nodes_paths c)) cs)"

text \<open>
  Following a path from a node the way \<open>insertNode\<close> does, taking at each level the
  first child with the segment's name.
\<close>

fun lookupNode :: "TreeNode \<Rightarrow> string list \<Rightarrow> TreeNode option" where
  "lookupNode t [] = Some t"
| "lookupNode t (part # rest) =
     (case findChild (Children t) part of
        None \<Rightarrow> None
      | Some i \<Rightarrow> lookupNode (Children t ! i) rest)"

text \<open>
  The value found at a path; the empty string when there is no node, as for a node
  that was created as a namespace only.
\<close>

definition valueAt :: "TreeNode \<Rightarrow> string list \<Rightarrow> string" where
  "valueAt t p = (case lookupNode t p of None \<Rightarrow> [] | Some n \<Rightarrow> Value n)"

text \<open>The \<open>(id, value)\<close> pair of every node that carries a value.\<close>

definition flatten :: "TreeNode \<Rightarrow> (string \<times> string) list" where
  "flatten t = map (\<lambda>n. (ID n, Value n)) (filter (\<lambda>n. Value n \<noteq> []) (nodes t))"

text \<open>The tree without its values: nodes, ids, names and child lists only.\<close>

fun shape :: "TreeNode \<Rightarrow> TreeNode" where
  "shape (TreeNode i n v cs) = TreeNode i n [] (map shape cs)"

text \<open>
  \<open>grows t t'\<close>: \<open>t'\<close> is \<open>t\<close> with children appended. Every node of \<open>t\<close> is in
  \<open>t'\<close> at the same position with the same id and name, and its old children are the
  first children of the new node, in the same order.
\<close>

fun grows :: "TreeNode \<Rightarrow> TreeNode \<Rightarrow> bool"
  and growsList :: "TreeNode list \<Rightarrow> TreeNode list \<Rightarrow> bool" where
  "grows (TreeNode i n v cs) (TreeNode i' n' v' cs') = (i = i' \<and> n = n' \<and> growsList cs cs')"
| "growsList [] cs' = True"
| "growsList (c # cs) [] = False"
| "growsList (c # cs) (c' # cs') = (grows c c' \<and> growsList cs cs')"

text \<open>Invariants of a tree built by \<open>insertNode\<close>.\<close>

fun uniqNames :: "TreeNode \<Rightarrow> bool" where
  "uniqNames (TreeNode i n v cs) = (distinct (map Name cs) \<and> list_all uniqNames cs)"

fun idsLinked :: "TreeNode \<Rightarrow> bool" where
  "idsLinked (TreeNode i n v cs) =
     list_all (\<lambda>c. ID c = TrimSuffix (i @ ''/'' @ Name c) ''/'' \<and> idsLinked c) cs"

text \<open>A segment as \<open>strings.Split\<close> on a well-formed key gives it: not empty, no separator.\<close>

definition segment :: "string \<Rightarrow> bool" where
  "segment s = (s \<noteq> [] \<and> CHR ''/'' \<notin> set s)"

text \<open>Every name below the root is such a segment.\<close>

fun segNames :: "TreeNode \<Rightarrow> bool" where
  "segNames (TreeNode i n v cs) = list_all (\<lambda>c. segment (Name c) \<and> segNames c) cs"

section \<open>The handlers\<close>

text \<open>
  The etcd client is a parameter: a function from the request to either an error or
  the key-value pairs of the response. A handler returns the HTTP response together
  with the requests it sent to the store, in order.
\<close>

datatype request = GetPrefixSorted string | GetExact string

datatype storeError = StoreError string

type_synonym client = "request \<Rightarrow> storeError + (string \<times> string) list"

datatype response =
    BadRequest
  | InternalServerError
  | NotFound
  | OKValue string
  | OKKeys "TreeNode list"

fun statusCode :: "response \<Rightarrow> nat" where
  "statusCode BadRequest = 400"
| "statusCode InternalServerError = 500"
| "statusCode NotFound = 404"
| "statusCode (OKValue v) = 200"
| "statusCode (OKKeys ns) = 200"

text \<open>\<open>strings.Split(string(kv.Key), "/")[1:]\<close>; \<open>Split\<close> never returns an empty slice.\<close>

definition keyParts :: "string \<Rightarrow> string list" where
  "keyParts key = drop 1 (Split key CHR ''/'')"

text \<open>The loop of \<open>FetchKeysHandler\<close> over \<open>resp.Kvs\<close>.\<close>

definition buildTree :: "(string \<times> string) list \<Rightarrow> TreeNode" where
  "buildTree kvs = foldl (\<lambda>root kv. insertNode root (keyParts (fst kv)) (snd kv)) freshRoot kvs"

definition FetchKeysHandler :: "client \<Rightarrow> response \<times> request list" where
  "FetchKeysHandler cl =
     (case cl (GetPrefixSorted ''/'') of
        Inl err \<Rightarrow> (InternalServerError, [GetPrefixSorted ''/''])
      | Inr kvs \<Rightarrow> (OKKeys (Children (buildTree kvs)), [GetPrefixSorted ''/'']))"

definition FetchValueForKeyHandler :: "client \<Rightarrow> string \<Rightarrow> response \<times> request list" where
  "FetchValueForKeyHandler cl param =
     (if param = [] then (BadRequest, [])
      else
        (let key = TrimPrefix param ''/'' in
         case cl (GetExact key) of
           Inl err \<Rightarrow> (InternalServerError, [GetExact key])
         | Inr kvs \<Rightarrow>
             (case kvs of
                [] \<Rightarrow> (NotFound, [GetExact key])
              | kv # _ \<Rightarrow> (OKValue (snd kv), [GetExact key]))))"

text \<open>A key as the store returns it under the prefix \<open>"/"\<close>, with no empty segment.\<close>

definition validKey :: "string \<Rightarrow> bool" where
  "validKey k = (HasPrefix k ''/'' \<and> list_all segment (keyParts k))"

section \<open>Basic facts about the operations\<close>


lemma ID_insertNode [simp]: "ID (insertNode t p v) = ID t"
  by (cases p) (auto simp: setChildren_def Let_def split: option.splits)

lemma Name_insertNode [simp]: "Name (insertNode t p v) = Name t"
  by (cases p) (auto simp: setChildren_def Let_def split: option.splits)

lemma Value_insertNode [simp]: "Value (insertNode t p v) = Value t"
  by (cases p) (auto simp: setChildren_def Let_def split: option.splits)

lemma setValue_sel [simp]:
  "ID (setValue n v) = ID n" "Name (setValue n v) = Name n"
  "Value (setValue n v) = v" "Children (setValue n v) = Children n"
  by (simp_all add: setValue_def)

lemma setChildren_sel [simp]:
  "ID (setChildren n cs) = ID n" "Name (setChildren n cs) = Name n"
  "Value (setChildren n cs) = Value n" "Children (setChildren n cs) = cs"
  by (simp_all add: setChildren_def)

lemma findChild_None_iff: "findChild cs x = None \<longleftrightarrow> x \<notin> Name ` set cs"
  by (induction cs) auto

lemma findChild_SomeD:
  "findChild cs x = Some i \<Longrightarrow> i < length cs \<and> Name (cs ! i) = x \<and> (\<forall>j<i. Name (cs ! j) \<noteq> x)"
proof (induction cs arbitrary: i)
  case Nil
  then show ?case by simp
next
  case (Cons c cs)
  show ?case
  proof (cases "Name c = x")
    case True
    with Cons.prems show ?thesis by simp
  next
    case False
    with Cons.prems obtain k where k: "findChild cs x = Some k" "i = Suc k"
      by auto
    from Cons.IH[OF k(1)] False k(2) show ?thesis
      by (auto simp: less_Suc_eq_0_disj)
  qed
qed

lemma findChild_names: "map Name cs = map Name cs' \<Longrightarrow> findChild cs x = findChild cs' x"
proof (induction cs arbitrary: cs')
  case Nil
  then show ?case by simp
next
  case (Cons c cs)
  then obtain d ds where "cs' = d # ds" "Name c = Name d" "map Name cs = map Name ds"
    by (cases cs') auto
  with Cons.IH show ?case by simp
qed

lemma findChild_update:
  "Name c' = Name (cs ! i) \<Longrightarrow> findChild (cs[i := c']) x = findChild cs x"
  by (rule findChild_names) (metis list_update_beyond list_update_id map_update not_le_imp_less)

lemma findChild_snoc:
  "findChild (cs @ [c]) x =
     (case findChild cs x of Some i \<Rightarrow> Some i
      | None \<Rightarrow> if Name c = x then Some (length cs) else None)"
  by (induction cs) (auto split: option.splits)


lemma insertNode_found:
  "findChild (Children t) part = Some i \<Longrightarrow>
   insertNode t (part # rest) v =
     setChildren t ((Children t)[i := insertNode (if rest = [] then setValue (Children t ! i) v
                                                  else Children t ! i) rest v])"
  by (simp add: Let_def)

lemma insertNode_new:
  "findChild (Children t) part = None \<Longrightarrow>
   insertNode t (part # rest) v =
     setChildren t (Children t @
       [insertNode (TreeNode (TrimSuffix (ID t @ ''/'' @ part) ''/'') part
                      (if rest = [] then v else []) []) rest v])"
  by simp

declare insertNode.simps(2) [simp del]

lemma valueAt_Nil [simp]: "valueAt t [] = Value t"
  by (simp add: valueAt_def)

lemma valueAt_Cons:
  "valueAt t (a # q) =
     (case findChild (Children t) a of None \<Rightarrow> [] | Some i \<Rightarrow> valueAt (Children t ! i) q)"
  by (simp add: valueAt_def split: option.splits)

lemma valueAt_leaf: "Children n = [] \<Longrightarrow> valueAt n q = (if q = [] then Value n else [])"
  by (cases q) (simp_all add: valueAt_Cons)

lemma valueAt_setValue:
  "valueAt (setValue n v) q = (if q = [] then v else valueAt n q)"
  by (cases q) (simp_all add: valueAt_Cons split: option.splits)

lemma valueAt_insertNode:
  "p \<noteq> [] \<Longrightarrow> valueAt (insertNode t p v) q = (if q = p then v else valueAt t q)"
proof (induction p arbitrary: t q)
  case Nil
  then show ?case by simp
next
  case (Cons part rest)
  let ?cs = "Children t"
  show ?case
  proof (cases q)
    case Nil
    then show ?thesis by simp
  next
    case q: (Cons a q')
    show ?thesis
    proof (cases "findChild ?cs part")
      case None
      let ?new = "TreeNode (TrimSuffix (ID t @ ''/'' @ part) ''/'') part (if rest = [] then v else []) []"
      have ins: "insertNode t (part # rest) v = setChildren t (?cs @ [insertNode ?new rest v])"
        using None by (simp add: insertNode_new)
      have sub: "valueAt (insertNode ?new rest v) q' = (if q' = rest then v else [])"
      proof (cases "rest = []")
        case True
        then show ?thesis by (simp add: valueAt_leaf)
      next
        case False
        then show ?thesis using Cons.IH[OF False, of ?new q'] by (simp add: valueAt_leaf)
      qed
      show ?thesis
      proof (cases "findChild ?cs a")
        case None': None
        with None sub show ?thesis
          unfolding q ins by (auto simp: valueAt_Cons findChild_snoc)
      next
        case (Some j)
        then have "j < length ?cs" "a \<noteq> part"
          using findChild_SomeD[OF Some] None by auto
        with Some show ?thesis
          unfolding q ins by (simp add: valueAt_Cons findChild_snoc nth_append)
      qed
    next
      case (Some i)
      let ?child = "?cs ! i"
      let ?child' = "if rest = [] then setValue ?child v else ?child"
      have i: "i < length ?cs" "Name ?child = part"
        using findChild_SomeD[OF Some] by auto
      have ins: "insertNode t (part # rest) v = setChildren t (?cs[i := insertNode ?child' rest v])"
        using Some by (simp add: insertNode_found)
      have fc: "findChild (?cs[i := insertNode ?child' rest v]) x = findChild ?cs x" for x
        by (rule findChild_update) simp
      have sub: "valueAt (insertNode ?child' rest v) q' = (if q' = rest then v else valueAt ?child q')"
      proof (cases "rest = []")
        case True
        then show ?thesis by (simp add: valueAt_setValue)
      next
        case False
        then show ?thesis using Cons.IH[OF False, of ?child q'] by simp
      qed
      show ?thesis
      proof (cases "a = part")
        case True
        with Some i sub show ?thesis
          unfolding q ins by (simp add: valueAt_Cons fc)
      next
        case False
        show ?thesis
        proof (cases "findChild ?cs a")
          case None
          then show ?thesis unfolding q ins using False by (simp add: valueAt_Cons fc)
        next
          case Some': (Some j)
          then have "j \<noteq> i" using findChild_SomeD[OF Some'] i False by auto
          with Some' show ?thesis unfolding q ins using False by (simp add: valueAt_Cons fc)
        qed
      qed
    qed
  qed
qed


lemma TrimSuffix_slash_eval [simp]:
  "TrimSuffix [] ''/'' = []"
  "TrimSuffix (s @ [c]) ''/'' = (if c = CHR ''/'' then s else s @ [c])"
  by (simp_all add: TrimSuffix_def HasSuffix_def)

lemma shape_setValue [simp]: "shape (setValue n v) = shape n"
  by (cases n) (simp add: setValue_def)

lemma shape_setChildren: "shape (setChildren n cs) = TreeNode (ID n) (Name n) [] (map shape cs)"
  by (cases n) (simp add: setChildren_def)

lemma shape_insertNode_value: "shape (insertNode t p v1) = shape (insertNode t p v2)"
proof (induction p arbitrary: t)
  case Nil
  then show ?case by simp
next
  case (Cons part rest)
  show ?case
  proof (cases "findChild (Children t) part")
    case None
    show ?thesis
    proof (cases "rest = []")
      case True
      then show ?thesis by (simp add: insertNode_new[OF None] shape_setChildren)
    next
      case False
      then show ?thesis
        using Cons.IH[of "TreeNode (TrimSuffix (ID t @ ''/'' @ part) ''/'') part [] []"]
        by (simp add: insertNode_new[OF None] shape_setChildren)
    qed
  next
    case (Some i)
    show ?thesis
    proof (cases "rest = []")
      case True
      then show ?thesis by (simp add: insertNode_found[OF Some] shape_setChildren map_update)
    next
      case False
      then show ?thesis
        using Cons.IH[of "Children t ! i"]
        by (simp add: insertNode_found[OF Some] shape_setChildren map_update)
    qed
  qed
qed

lemma setValue_setValue [simp]: "setValue (setValue n v1) v2 = setValue n v2"
  by (simp add: setValue_def)

lemma setChildren_setChildren [simp]: "setChildren (setChildren n cs) ds = setChildren n ds"
  by (simp add: setChildren_def)

lemma insertNode_twice: "insertNode (insertNode t p v1) p v2 = insertNode t p v2"
proof (induction p arbitrary: t)
  case Nil
  then show ?case by simp
next
  case (Cons part rest)
  let ?cs = "Children t"
  let ?id = "TrimSuffix (ID t @ ''/'' @ part) ''/''"
  show ?case
  proof (cases "findChild ?cs part")
    case None
    define X where "X = insertNode (TreeNode ?id part (if rest = [] then v1 else []) []) rest v1"
    have fc: "findChild (Children (setChildren t (?cs @ [X]))) part = Some (length ?cs)"
      using None by (simp add: findChild_snoc X_def)
    have sub: "insertNode (if rest = [] then setValue X v2 else X) rest v2
                 = insertNode (TreeNode ?id part (if rest = [] then v2 else []) []) rest v2"
    proof (cases "rest = []")
      case True
      then show ?thesis by (simp add: setValue_def X_def)
    next
      case False
      then show ?thesis
        using Cons.IH[of "TreeNode ?id part [] []"] by (simp add: X_def)
    qed
    have "insertNode (insertNode t (part # rest) v1) (part # rest) v2
            = insertNode (setChildren t (?cs @ [X])) (part # rest) v2"
      by (simp only: insertNode_new[OF None] X_def)
    also have "\<dots> = setChildren t (?cs @ [insertNode (if rest = [] then setValue X v2 else X) rest v2])"
      by (simp only: insertNode_found[OF fc] setChildren_sel setChildren_setChildren
            nth_append_length list_update_length)
    also have "\<dots> = insertNode t (part # rest) v2"
      by (simp only: insertNode_new[OF None] sub)
    finally show ?thesis .
  next
    case (Some i)
    have i: "i < length ?cs" using findChild_SomeD[OF Some] by simp
    define X where "X = insertNode (if rest = [] then setValue (?cs ! i) v1 else ?cs ! i) rest v1"
    have fc: "findChild (Children (setChildren t (?cs[i := X]))) part = Some i"
      using Some by (simp add: findChild_update X_def)
    have sub: "insertNode (if rest = [] then setValue X v2 else X) rest v2
                 = insertNode (if rest = [] then setValue (?cs ! i) v2 else ?cs ! i) rest v2"
    proof (cases "rest = []")
      case True
      then show ?thesis by (simp add: X_def)
    next
      case False
      then show ?thesis using Cons.IH[of "?cs ! i"] by (simp add: X_def)
    qed
    have "insertNode (insertNode t (part # rest) v1) (part # rest) v2
            = insertNode (setChildren t (?cs[i := X])) (part # rest) v2"
      by (simp only: insertNode_found[OF Some] X_def)
    also have "\<dots> = setChildren t (?cs[i := insertNode (if rest = [] then setValue X v2 else X) rest v2])"
      using i by (simp only: insertNode_found[OF fc] setChildren_sel setChildren_setChildren
            nth_list_update_eq list_update_overwrite)
    also have "\<dots> = insertNode t (part # rest) v2"
      by (simp only: insertNode_found[OF Some] sub)
    finally show ?thesis .
  qed
qed

lemma growsList_refl_aux: "(\<And>c. c \<in> set cs \<Longrightarrow> grows c c) \<Longrightarrow> growsList cs cs"
  by (induction cs) simp_all

lemma grows_refl: "grows t t"
  by (induction t) (simp add: growsList_refl_aux)

lemma growsList_refl: "growsList cs cs"
  by (simp add: growsList_refl_aux grows_refl)

lemma growsList_append: "growsList cs cs' \<Longrightarrow> growsList cs (cs' @ ds)"
proof (induction cs arbitrary: cs')
  case Nil
  then show ?case by simp
next
  case (Cons c cs)
  then show ?case by (cases cs') simp_all
qed

lemma grows_trans: "grows a b \<Longrightarrow> grows b c \<Longrightarrow> grows a c"
  and growsList_trans: "growsList as bs \<Longrightarrow> growsList bs cs \<Longrightarrow> growsList as cs"
proof (induction a b and as bs arbitrary: c and cs rule: grows_growsList.induct)
  case (1 i n v cs i' n' v' cs')
  then show ?case by (cases c) auto
next
  case (2 cs')
  then show ?case by simp
next
  case (3 c cs)
  then show ?case by simp
next
  case (4 c cs c' cs' cs'')
  then show ?case by (cases cs'') auto
qed

lemma growsList_update:
  "i < length cs \<Longrightarrow> grows (cs ! i) c' \<Longrightarrow> growsList cs (cs[i := c'])"
proof (induction cs arbitrary: i)
  case Nil
  then show ?case by simp
next
  case (Cons c cs)
  then show ?case by (cases i) (simp_all add: growsList_refl grows_refl)
qed

lemma grows_setValue: "grows n (setValue n v)"
  by (cases n) (simp add: setValue_def growsList_refl)

lemma grows_setChildren: "growsList (Children n) cs \<Longrightarrow> grows n (setChildren n cs)"
  by (cases n) (simp add: setChildren_def)

lemma grows_insertNode: "grows t (insertNode t p v)"
proof (induction p arbitrary: t)
  case Nil
  then show ?case by (simp add: grows_refl)
next
  case (Cons part rest)
  show ?case
  proof (cases "findChild (Children t) part")
    case None
    then show ?thesis
      by (simp add: insertNode_new grows_setChildren growsList_append growsList_refl)
  next
    case (Some i)
    let ?child = "Children t ! i"
    let ?child' = "if rest = [] then setValue ?child v else ?child"
    have "grows ?child ?child'" by (simp add: grows_setValue grows_refl)
    then have "grows ?child (insertNode ?child' rest v)"
      using Cons.IH[of ?child'] grows_trans by blast
    moreover have "i < length (Children t)" using findChild_SomeD[OF Some] by simp
    ultimately show ?thesis
      by (simp add: insertNode_found[OF Some] grows_setChildren growsList_update)
  qed
qed

lemma grows_insertAll: "grows t (insertAll t ins)"
proof (induction ins arbitrary: t)
  case Nil
  then show ?case by (simp add: insertAll_def grows_refl)
next
  case (Cons a ins)
  obtain p v where a: "a = (p, v)" by (cases a)
  have "grows t (insertNode t p v)" by (rule grows_insertNode)
  moreover have "grows (insertNode t p v) (insertAll (insertNode t p v) ins)" by (rule Cons.IH)
  ultimately show ?case unfolding a by (auto simp: insertAll_def intro: grows_trans)
qed

lemma names_insertNode:
  "map Name (Children (insertNode t (part # rest) v)) =
     (if part \<in> Name ` set (Children t) then map Name (Children t)
      else map Name (Children t) @ [part])"
proof (cases "findChild (Children t) part")
  case None
  then have "part \<notin> Name ` set (Children t)" by (simp add: findChild_None_iff)
  then show ?thesis by (simp add: insertNode_new[OF None])
next
  case (Some i)
  then have "i < length (Children t)" "Name (Children t ! i) = part"
    using findChild_SomeD[OF Some] by auto
  moreover from this have "part \<in> Name ` set (Children t)"
    by (metis imageI nth_mem)
  moreover from calculation have "(map Name (Children t))[i := part] = map Name (Children t)"
    by (metis list_update_id nth_map)
  ultimately show ?thesis by (simp add: insertNode_found[OF Some] map_update)
qed


lemma Children_insertNode_nonempty: "q \<noteq> [] \<Longrightarrow> Children (insertNode n q v) \<noteq> []"
proof (cases q)
  case Nil
  assume "q \<noteq> []"
  with Nil show ?thesis by simp
next
  case (Cons part rest)
  show ?thesis
  proof (cases "findChild (Children n) part")
    case None
    then show ?thesis unfolding Cons by (simp add: insertNode_new)
  next
    case (Some i)
    then have "i < length (Children n)" using findChild_SomeD by blast
    then show ?thesis unfolding Cons by (auto simp add: insertNode_found[OF Some])
  qed
qed

lemma lookupNode_insertNode_prefix:
  "lookupNode t p = Some n \<Longrightarrow> q \<noteq> [] \<Longrightarrow>
   lookupNode (insertNode t (p @ q) v) p = Some (insertNode n q v)"
proof (induction p arbitrary: t)
  case Nil
  then show ?case by simp
next
  case (Cons part rest)
  from Cons.prems(1) obtain i where
    i: "findChild (Children t) part = Some i" and sub: "lookupNode (Children t ! i) rest = Some n"
    by (auto split: option.splits)
  have len: "i < length (Children t)" using findChild_SomeD[OF i] by simp
  have ne: "rest @ q \<noteq> []" using Cons.prems(2) by simp
  have "insertNode t ((part # rest) @ q) v =
          setChildren t ((Children t)[i := insertNode (Children t ! i) (rest @ q) v])"
    using Cons.prems(2) by (simp add: insertNode_found[OF i])
  moreover have "findChild ((Children t)[i := insertNode (Children t ! i) (rest @ q) v]) part = Some i"
    using i by (simp add: findChild_update)
  ultimately show ?case
    using Cons.IH[OF sub Cons.prems(2)] len by simp
qed

lemma lookupNode_valueAt: "lookupNode t p = Some n \<Longrightarrow> valueAt t p = Value n"
  by (simp add: valueAt_def)

lemma lookupNode_insertNode_self: "\<exists>n. lookupNode (insertNode t p v) p = Some n"
proof (induction p arbitrary: t)
  case Nil
  then show ?case by simp
next
  case (Cons part rest)
  show ?case
  proof (cases "findChild (Children t) part")
    case None
    then show ?thesis
      using Cons.IH by (simp add: insertNode_new findChild_snoc)
  next
    case (Some i)
    then have "i < length (Children t)" using findChild_SomeD by blast
    then show ?thesis
      using Cons.IH Some by (simp add: insertNode_found[OF Some] findChild_update)
  qed
qed

section \<open>Invariants, paths and ids\<close>

lemma TrimSuffix_segment: "segment s \<Longrightarrow> TrimSuffix (r @ ''/'' @ s) ''/'' = r @ ''/'' @ s"
proof -
  assume s: "segment s"
  then have ne: "s \<noteq> []" by (simp add: segment_def)
  have "last s \<in> set s" using ne by simp
  moreover have "CHR ''/'' \<notin> set s" using s by (simp add: segment_def)
  ultimately have last: "last s \<noteq> CHR ''/''" by auto
  have "r @ ''/'' @ s = (r @ ''/'' @ butlast s) @ [last s]"
    using ne by simp
  then have "TrimSuffix (r @ ''/'' @ s) ''/'' = (r @ ''/'' @ butlast s) @ [last s]"
    using last by (simp only: TrimSuffix_slash_eval if_False)
  then show ?thesis using ne by simp
qed

lemma idsLinked_iff:
  "idsLinked t =
     list_all (\<lambda>c. ID c = TrimSuffix (ID t @ ''/'' @ Name c) ''/'' \<and> idsLinked c) (Children t)"
  by (cases t) simp

lemma uniqNames_iff:
  "uniqNames t = (distinct (map Name (Children t)) \<and> list_all uniqNames (Children t))"
  by (cases t) simp

lemma segNames_iff:
  "segNames t = list_all (\<lambda>c. segment (Name c) \<and> segNames c) (Children t)"
  by (cases t) simp

lemma list_all_update: "list_all P cs \<Longrightarrow> P x \<Longrightarrow> list_all P (cs[i := x])"
  by (induction cs arbitrary: i) (auto split: nat.splits)

lemma list_all_nth: "list_all P cs \<Longrightarrow> i < length cs \<Longrightarrow> P (cs ! i)"
  by (simp add: list_all_length)

lemma idsLinked_setValue [simp]: "idsLinked (setValue n v) = idsLinked n"
  by (simp add: idsLinked_iff[of "setValue n v"] idsLinked_iff[of n])

lemma uniqNames_setValue [simp]: "uniqNames (setValue n v) = uniqNames n"
  by (simp add: uniqNames_iff[of "setValue n v"] uniqNames_iff[of n])

lemma segNames_setValue [simp]: "segNames (setValue n v) = segNames n"
  by (simp add: segNames_iff[of "setValue n v"] segNames_iff[of n])

lemma idsLinked_insertNode: "idsLinked t \<Longrightarrow> idsLinked (insertNode t p v)"
proof (induction p arbitrary: t)
  case Nil
  then show ?case by simp
next
  case (Cons part rest)
  let ?P = "\<lambda>c. ID c = TrimSuffix (ID t @ ''/'' @ Name c) ''/'' \<and> idsLinked c"
  have all: "list_all ?P (Children t)"
    using Cons.prems by (simp add: idsLinked_iff[of t])
  show ?case
  proof (cases "findChild (Children t) part")
    case None
    let ?new = "TreeNode (TrimSuffix (ID t @ ''/'' @ part) ''/'') part (if rest = [] then v else []) []"
    have "idsLinked ?new" by simp
    then have "?P (insertNode ?new rest v)" using Cons.IH[of ?new] by simp
    with all show ?thesis
      by (simp add: insertNode_new[OF None] idsLinked_iff[of "setChildren t cs" for cs])
  next
    case (Some i)
    let ?child = "Children t ! i"
    let ?child' = "if rest = [] then setValue ?child v else ?child"
    have i: "i < length (Children t)" using findChild_SomeD[OF Some] by simp
    have "?P ?child" using list_all_nth[OF all i] .
    then have "?P (insertNode ?child' rest v)" using Cons.IH[of ?child'] by simp
    then have "list_all ?P ((Children t)[i := insertNode ?child' rest v])"
      by (rule list_all_update[OF all])
    then show ?thesis
      by (simp add: insertNode_found[OF Some] idsLinked_iff[of "setChildren t cs" for cs])
  qed
qed

lemma segNames_insertNode: "segNames t \<Longrightarrow> list_all segment p \<Longrightarrow> segNames (insertNode t p v)"
proof (induction p arbitrary: t)
  case Nil
  then show ?case by simp
next
  case (Cons part rest)
  let ?P = "\<lambda>c. segment (Name c) \<and> segNames c"
  have all: "list_all ?P (Children t)"
    using Cons.prems by (simp add: segNames_iff[of t])
  have seg: "segment part" and rest: "list_all segment rest"
    using Cons.prems by simp_all
  show ?case
  proof (cases "findChild (Children t) part")
    case None
    let ?new = "TreeNode (TrimSuffix (ID t @ ''/'' @ part) ''/'') part (if rest = [] then v else []) []"
    have "segNames ?new" by simp
    then have "?P (insertNode ?new rest v)" using Cons.IH[of ?new] seg rest by simp
    with all show ?thesis
      by (simp add: insertNode_new[OF None] segNames_iff[of "setChildren t cs" for cs])
  next
    case (Some i)
    let ?child = "Children t ! i"
    let ?child' = "if rest = [] then setValue ?child v else ?child"
    have i: "i < length (Children t)" using findChild_SomeD[OF Some] by simp
    have "?P ?child" using list_all_nth[OF all i] .
    then have "?P (insertNode ?child' rest v)" using Cons.IH[of ?child'] rest by simp
    then have "list_all ?P ((Children t)[i := insertNode ?child' rest v])"
      by (rule list_all_update[OF all])
    then show ?thesis
      by (simp add: insertNode_found[OF Some] segNames_iff[of "setChildren t cs" for cs])
  qed
qed

lemma uniqNames_insertNode: "uniqNames t \<Longrightarrow> uniqNames (insertNode t p v)"
proof (induction p arbitrary: t)
  case Nil
  then show ?case by simp
next
  case (Cons part rest)
  have all: "list_all uniqNames (Children t)" and dist: "distinct (map Name (Children t))"
    using Cons.prems by (simp_all add: uniqNames_iff[of t])
  have names: "distinct (map Name (Children (insertNode t (part # rest) v)))"
    using dist by (simp add: names_insertNode)
  show ?case
  proof (cases "findChild (Children t) part")
    case None
    let ?new = "TreeNode (TrimSuffix (ID t @ ''/'' @ part) ''/'') part (if rest = [] then v else []) []"
    have "uniqNames ?new" by simp
    then have "uniqNames (insertNode ?new rest v)" by (rule Cons.IH)
    with all names show ?thesis
      by (simp add: insertNode_new[OF None] uniqNames_iff[of "setChildren t cs" for cs])
  next
    case (Some i)
    let ?child = "Children t ! i"
    let ?child' = "if rest = [] then setValue ?child v else ?child"
    have i: "i < length (Children t)" using findChild_SomeD[OF Some] by simp
    have "uniqNames ?child" using list_all_nth[OF all i] .
    then have "uniqNames (insertNode ?child' rest v)" using Cons.IH[of ?child'] by simp
    then have "list_all uniqNames ((Children t)[i := insertNode ?child' rest v])"
      by (rule list_all_update[OF all])
    with names show ?thesis
      by (simp add: insertNode_found[OF Some] uniqNames_iff[of "setChildren t cs" for cs])
  qed
qed

lemma insertAll_Cons: "insertAll t ((p, v) # ins) = insertAll (insertNode t p v) ins"
  by (simp add: insertAll_def)

lemma insertAll_Nil [simp]: "insertAll t [] = t"
  by (simp add: insertAll_def)

lemma idsLinked_insertAll: "idsLinked t \<Longrightarrow> idsLinked (insertAll t ins)"
  by (induction ins arbitrary: t) (auto simp: insertAll_Cons idsLinked_insertNode)

lemma uniqNames_insertAll: "uniqNames t \<Longrightarrow> uniqNames (insertAll t ins)"
  by (induction ins arbitrary: t) (auto simp: insertAll_Cons uniqNames_insertNode)

lemma segNames_insertAll:
  "segNames t \<Longrightarrow> list_all (\<lambda>(p, v). list_all segment p) ins \<Longrightarrow> segNames (insertAll t ins)"
  by (induction ins arbitrary: t) (auto simp: insertAll_Cons segNames_insertNode)

lemma freshRoot_invariants [simp]:
  "idsLinked freshRoot" "uniqNames freshRoot" "segNames freshRoot"
  "ID freshRoot = []" "Children freshRoot = []" "Value freshRoot = []"
  by (simp_all add: freshRoot_def)


lemma nodes_unfold: "nodes t = concat (map (\<lambda>c. c # nodes c) (Children t))"
  by (cases t) simp

lemma nodes_paths_unfold:
  "nodes_paths t =
     concat (map (\<lambda>c. ([Name c], c) # map (\<lambda>(p, m). (Name c # p, m)) (nodes_paths c)) (Children t))"
  by (cases t) simp

lemma mem_nodes_paths:
  "(p, n) \<in> set (nodes_paths t) \<longleftrightarrow>
     (\<exists>c \<in> set (Children t). (p = [Name c] \<and> n = c)
        \<or> (\<exists>q. p = Name c # q \<and> (q, n) \<in> set (nodes_paths c)))"
  by (subst nodes_paths_unfold) auto

lemma nodes_paths_childI: "c \<in> set (Children t) \<Longrightarrow> ([Name c], c) \<in> set (nodes_paths t)"
  unfolding mem_nodes_paths[of _ _ t] by blast

lemma nodes_paths_descI:
  "c \<in> set (Children t) \<Longrightarrow> (q, n) \<in> set (nodes_paths c) \<Longrightarrow>
   (Name c # q, n) \<in> set (nodes_paths t)"
  unfolding mem_nodes_paths[of _ _ t] by blast

lemma nodes_paths_nonempty: "(p, n) \<in> set (nodes_paths t) \<Longrightarrow> p \<noteq> []"
  by (auto simp: mem_nodes_paths[of _ _ t])

lemma nodes_paths_Nil [simp]: "([], n) \<notin> set (nodes_paths t)"
  using nodes_paths_nonempty by blast

lemma nodes_paths_snd: "map snd (nodes_paths t) = nodes t"
proof (induction t)
  case (TreeNode i n v cs)
  have "map snd (([Name c], c) # map (\<lambda>(p, m). (Name c # p, m)) (nodes_paths c)) = c # nodes c"
    if "c \<in> set cs" for c
    using TreeNode[OF that] by (simp add: comp_def case_prod_unfold)
  then show ?case
    by (simp add: map_concat comp_def cong: map_cong)
qed

lemma nodes_paths_Name: "(p, n) \<in> set (nodes_paths t) \<Longrightarrow> Name n = last p"
proof (induction p arbitrary: t)
  case Nil
  then show ?case by (simp add: mem_nodes_paths[of _ _ t])
next
  case (Cons a q)
  from Cons.prems obtain c where c: "c \<in> set (Children t)" "a = Name c"
    and d: "(q = [] \<and> n = c) \<or> (q, n) \<in> set (nodes_paths c)"
    by (auto simp: mem_nodes_paths[of _ _ t])
  from d show ?case
  proof
    assume "q = [] \<and> n = c"
    with c show ?thesis by simp
  next
    assume q: "(q, n) \<in> set (nodes_paths c)"
    then have "q \<noteq> []" by (rule nodes_paths_nonempty)
    with Cons.IH[OF q] show ?thesis by simp
  qed
qed

lemma nodes_paths_ID:
  "idsLinked t \<Longrightarrow> (p, n) \<in> set (nodes_paths t) \<Longrightarrow> list_all segment p \<Longrightarrow>
   ID n = ID t @ concat (map ((#) CHR ''/'') p)"
proof (induction p arbitrary: t)
  case Nil
  then show ?case by (simp add: mem_nodes_paths[of _ _ t])
next
  case (Cons a q)
  from Cons.prems(2) obtain c where c: "c \<in> set (Children t)" "a = Name c"
    and d: "(q = [] \<and> n = c) \<or> (q, n) \<in> set (nodes_paths c)"
    by (auto simp: mem_nodes_paths[of _ _ t])
  have seg: "segment a" and segq: "list_all segment q" using Cons.prems(3) by simp_all
  have "ID c = TrimSuffix (ID t @ ''/'' @ Name c) ''/''" and lc: "idsLinked c"
    using Cons.prems(1) c(1) by (auto simp: idsLinked_iff[of t] list_all_iff)
  then have idc: "ID c = ID t @ ''/'' @ a"
    using TrimSuffix_segment[OF seg, of "ID t"] c(2) by simp
  from d show ?case
  proof
    assume "q = [] \<and> n = c"
    with idc show ?thesis by simp
  next
    assume q: "(q, n) \<in> set (nodes_paths c)"
    show ?thesis using Cons.IH[OF lc q segq] idc by simp
  qed
qed

lemma nodes_paths_segments:
  "segNames t \<Longrightarrow> (p, n) \<in> set (nodes_paths t) \<Longrightarrow> list_all segment p"
proof (induction p arbitrary: t)
  case Nil
  then show ?case by simp
next
  case (Cons a q)
  from Cons.prems(2) obtain c where c: "c \<in> set (Children t)" "a = Name c"
    and d: "(q = [] \<and> n = c) \<or> (q, n) \<in> set (nodes_paths c)"
    by (auto simp: mem_nodes_paths[of _ _ t])
  have seg: "segment a" and sc: "segNames c"
    using Cons.prems(1) c by (auto simp: segNames_iff[of t] list_all_iff)
  from d show ?case
  proof
    assume "q = [] \<and> n = c"
    with seg show ?thesis by simp
  next
    assume q: "(q, n) \<in> set (nodes_paths c)"
    show ?thesis using Cons.IH[OF sc q] seg by simp
  qed
qed

lemma findChild_distinct:
  "distinct (map Name cs) \<Longrightarrow> c \<in> set cs \<Longrightarrow>
   \<exists>i. findChild cs (Name c) = Some i \<and> cs ! i = c"
proof (induction cs)
  case Nil
  then show ?case by simp
next
  case (Cons d cs)
  show ?case
  proof (cases "c = d")
    case True
    then show ?thesis by simp
  next
    case False
    with Cons.prems have c: "c \<in> set cs" and ne: "Name d \<noteq> Name c" by auto
    from Cons.IH c Cons.prems(1) obtain i where "findChild cs (Name c) = Some i" "cs ! i = c"
      by auto
    with ne show ?thesis by simp
  qed
qed

lemma nodes_paths_lookupNode:
  "uniqNames t \<Longrightarrow> (p, n) \<in> set (nodes_paths t) \<Longrightarrow> lookupNode t p = Some n"
proof (induction p arbitrary: t)
  case Nil
  then show ?case by (simp add: mem_nodes_paths[of _ _ t])
next
  case (Cons a q)
  from Cons.prems(2) obtain c where c: "c \<in> set (Children t)" "a = Name c"
    and d: "(q = [] \<and> n = c) \<or> (q, n) \<in> set (nodes_paths c)"
    by (auto simp: mem_nodes_paths[of _ _ t])
  have dist: "distinct (map Name (Children t))" and uc: "uniqNames c"
    using Cons.prems(1) c(1) by (auto simp: uniqNames_iff[of t] list_all_iff)
  obtain i where i: "findChild (Children t) a = Some i" "Children t ! i = c"
    using findChild_distinct[OF dist c(1)] c(2) by auto
  from d show ?case
  proof
    assume "q = [] \<and> n = c"
    with i show ?thesis by simp
  next
    assume q: "(q, n) \<in> set (nodes_paths c)"
    show ?thesis using Cons.IH[OF uc q] i by simp
  qed
qed

lemma lookupNode_nodes_paths:
  "lookupNode t p = Some n \<Longrightarrow> p \<noteq> [] \<Longrightarrow> (p, n) \<in> set (nodes_paths t)"
proof (induction p arbitrary: t)
  case Nil
  then show ?case by simp
next
  case (Cons a q)
  from Cons.prems(1) obtain i where
    i: "findChild (Children t) a = Some i" and sub: "lookupNode (Children t ! i) q = Some n"
    by (auto split: option.splits)
  let ?c = "Children t ! i"
  have c: "?c \<in> set (Children t)" "Name ?c = a"
    using findChild_SomeD[OF i] by auto
  show ?case
  proof (cases "q = []")
    case True
    with sub c nodes_paths_childI[OF c(1)] show ?thesis by simp
  next
    case False
    from nodes_paths_descI[OF c(1) Cons.IH[OF sub False]] c(2) show ?thesis by simp
  qed
qed


lemma distinct_mapI: "distinct xs \<Longrightarrow> inj_on f (set xs) \<Longrightarrow> distinct (map f xs)"
  by (simp add: distinct_map)

lemma distinct_concat_heads:
  "distinct (map Name cs) \<Longrightarrow> (\<And>c. c \<in> set cs \<Longrightarrow> distinct (P c)) \<Longrightarrow>
   (\<And>c p. c \<in> set cs \<Longrightarrow> p \<in> set (P c) \<Longrightarrow> p \<noteq> [] \<and> hd p = Name c) \<Longrightarrow>
   distinct (concat (map P cs))"
proof (induction cs)
  case Nil
  then show ?case by simp
next
  case (Cons c cs)
  have tl: "distinct (concat (map P cs))"
    using Cons.prems by (intro Cons.IH) auto
  have disj: "set (P c) \<inter> set (concat (map P cs)) = {}"
  proof (rule ccontr)
    assume "set (P c) \<inter> set (concat (map P cs)) \<noteq> {}"
    then obtain p d where p: "p \<in> set (P c)" "d \<in> set cs" "p \<in> set (P d)" by auto
    have "hd p = Name c" using Cons.prems(3)[of c p] p(1) by simp
    moreover have "hd p = Name d" using Cons.prems(3)[of d p] p(2,3) by simp
    ultimately have "Name c \<in> Name ` set cs" using p(2) by (metis imageI)
    with Cons.prems(1) show False by simp
  qed
  have "distinct (P c)" using Cons.prems(2)[of c] by simp
  with tl disj show ?case by simp
qed

lemma nodes_paths_fst:
  "map fst (nodes_paths t) =
     concat (map (\<lambda>c. [Name c] # map ((#) (Name c)) (map fst (nodes_paths c))) (Children t))"
  by (subst nodes_paths_unfold) (simp add: map_concat comp_def case_prod_unfold)

lemma distinct_paths: "uniqNames t \<Longrightarrow> distinct (map fst (nodes_paths t))"
proof (induction t)
  case (TreeNode i n v cs)
  let ?P = "\<lambda>c. [Name c] # map ((#) (Name c)) (map fst (nodes_paths c))"
  have dist: "distinct (map Name cs)" and sub: "\<And>c. c \<in> set cs \<Longrightarrow> uniqNames c"
    using TreeNode.prems by (auto simp: list_all_iff)
  have "distinct (?P c)" if c: "c \<in> set cs" for c
  proof -
    have "distinct (map fst (nodes_paths c))" using TreeNode.IH[OF c sub[OF c]] .
    then have "distinct (map ((#) (Name c)) (map fst (nodes_paths c)))"
      by (rule distinct_mapI) simp
    moreover have "[Name c] \<notin> set (map ((#) (Name c)) (map fst (nodes_paths c)))"
      by auto
    ultimately show ?thesis by simp
  qed
  moreover have "p \<noteq> [] \<and> hd p = Name c" if "c \<in> set cs" "p \<in> set (?P c)" for c p
    using that by auto
  ultimately have "distinct (concat (map ?P cs))"
    using dist by (intro distinct_concat_heads) blast+
  then show ?case
    by (subst nodes_paths_fst) simp
qed

lemma takeWhile_upto_sep:
  "sep \<notin> set a \<Longrightarrow> X = [] \<or> hd X = sep \<Longrightarrow> takeWhile (\<lambda>x. x \<noteq> sep) (a @ X) = a"
  by (induction a) (auto simp: takeWhile_eq_Nil_iff)

lemma append_sep_inj:
  assumes "sep \<notin> set a" "sep \<notin> set b" "X = [] \<or> hd X = sep" "Y = [] \<or> hd Y = sep"
    and eq: "a @ X = b @ Y"
  shows "a = b \<and> X = Y"
proof -
  have "a = takeWhile (\<lambda>x. x \<noteq> sep) (a @ X)"
    using assms(1,3) by (simp add: takeWhile_upto_sep)
  also have "\<dots> = takeWhile (\<lambda>x. x \<noteq> sep) (b @ Y)" by (simp only: eq)
  also have "\<dots> = b" using assms(2,4) by (simp add: takeWhile_upto_sep)
  finally have "a = b" .
  with eq show ?thesis by simp
qed

lemma slash_paths_head:
  "concat (map ((#) sep) p) = [] \<or> hd (concat (map ((#) sep) p)) = sep"
  by (cases p) simp_all

lemma slash_paths_inj:
  "list_all segment p \<Longrightarrow> list_all segment q \<Longrightarrow>
   concat (map ((#) CHR ''/'') p) = concat (map ((#) CHR ''/'') q) \<Longrightarrow> p = q"
proof (induction p arbitrary: q)
  case Nil
  then show ?case by (cases q) simp_all
next
  case (Cons a p)
  show ?case
  proof (cases q)
    case Nil
    with Cons.prems show ?thesis by simp
  next
    case q: (Cons b q')
    have eq: "a @ concat (map ((#) CHR ''/'') p) = b @ concat (map ((#) CHR ''/'') q')"
      using Cons.prems(3) unfolding q by simp
    have a: "CHR ''/'' \<notin> set a" and b: "CHR ''/'' \<notin> set b"
      using Cons.prems(1,2) unfolding q by (simp_all add: segment_def)
    have "a = b \<and> concat (map ((#) CHR ''/'') p) = concat (map ((#) CHR ''/'') q')"
      by (rule append_sep_inj[OF a b slash_paths_head slash_paths_head eq])
    moreover have "list_all segment p" "list_all segment q'"
      using Cons.prems(1,2) unfolding q by simp_all
    ultimately show ?thesis unfolding q using Cons.IH[of q'] by simp
  qed
qed

lemma slash_paths_Join: "p \<noteq> [] \<Longrightarrow> concat (map ((#) sep) p) = sep # Join p sep"
  by (induction p sep rule: Join.induct) simp_all

lemma nodes_ID_paths:
  assumes "idsLinked t" "segNames t"
  shows "map ID (nodes t) = map (\<lambda>p. ID t @ concat (map ((#) CHR ''/'') p)) (map fst (nodes_paths t))"
proof -
  have "map ID (nodes t) = map (\<lambda>pn. ID (snd pn)) (nodes_paths t)"
    by (simp add: nodes_paths_snd[symmetric] comp_def)
  also have "\<dots> = map (\<lambda>pn. ID t @ concat (map ((#) CHR ''/'') (fst pn))) (nodes_paths t)"
  proof (rule map_cong[OF refl])
    fix pn assume "pn \<in> set (nodes_paths t)"
    then have m: "(fst pn, snd pn) \<in> set (nodes_paths t)" by simp
    show "ID (snd pn) = ID t @ concat (map ((#) CHR ''/'') (fst pn))"
      using nodes_paths_ID[OF assms(1) m nodes_paths_segments[OF assms(2) m]] .
  qed
  finally show ?thesis by (simp add: comp_def)
qed

lemma distinct_ids:
  assumes "idsLinked t" "uniqNames t" "segNames t"
  shows "distinct (map ID (t # nodes t))"
proof -
  let ?f = "\<lambda>p. ID t @ concat (map ((#) CHR ''/'') p)"
  let ?ps = "map fst (nodes_paths t)"
  have segs: "list_all segment p" and ne: "p \<noteq> []" if "p \<in> set ?ps" for p
    using that nodes_paths_segments[OF assms(3)] nodes_paths_nonempty by auto
  have "inj_on ?f (set ?ps)"
    by (rule inj_onI) (use segs slash_paths_inj in auto)
  then have "distinct (map ?f ?ps)"
    by (rule distinct_mapI[OF distinct_paths[OF assms(2)]])
  moreover have "ID t \<notin> set (map ?f ?ps)"
  proof
    assume "ID t \<in> set (map ?f ?ps)"
    then obtain p where p: "p \<in> set ?ps" "concat (map ((#) CHR ''/'') p) = []"
      by (auto simp del: concat_eq_Nil_conv)
    from ne[OF p(1)] p(2) show False by (cases p) auto
  qed
  ultimately show ?thesis
    by (simp add: nodes_ID_paths[OF assms(1,3)])
qed


lemma ID_insertAll [simp]: "ID (insertAll t ins) = ID t"
  by (induction ins arbitrary: t) (auto simp: insertAll_Cons)

lemma last_Join:
  "p \<noteq> [] \<Longrightarrow> last p \<noteq> [] \<Longrightarrow> Join p sep \<noteq> [] \<and> last (Join p sep) = last (last p)"
  by (induction p sep rule: Join.induct) auto

lemma Split_nonempty [simp]: "Split k sep \<noteq> []"
  by (induction k) (auto split: list.splits)

lemma Split_concat: "Split k sep = x # xs \<Longrightarrow> x @ concat (map ((#) sep) xs) = k"
proof (induction k arbitrary: x xs)
  case Nil
  then show ?case by simp
next
  case (Cons c cs)
  obtain y ys where y: "Split cs sep = y # ys"
    using Split_nonempty[of cs sep] by (cases "Split cs sep") auto
  have IH: "y @ concat (map ((#) sep) ys) = cs" using Cons.IH[OF y] .
  show ?case
  proof (cases "c = sep")
    case True
    with Cons.prems y have "x = []" "xs = y # ys" by simp_all
    with IH True show ?thesis by simp
  next
    case False
    with Cons.prems y have "x = c # y" "xs = ys" by simp_all
    with IH show ?thesis by simp
  qed
qed

lemma validKey_parts:
  assumes "validKey k"
  shows "keyParts k \<noteq> []" and "concat (map ((#) CHR ''/'') (keyParts k)) = k"
    and "list_all segment (keyParts k)"
proof -
  from assms obtain k' where k: "k = CHR ''/'' # k'"
    by (cases k) (auto simp: validKey_def HasPrefix_def)
  have sp: "Split k CHR ''/'' = [] # Split k' CHR ''/''" unfolding k by simp
  then have kp: "keyParts k = Split k' CHR ''/''" by (simp add: keyParts_def)
  show "keyParts k \<noteq> []" unfolding kp by simp
  show "concat (map ((#) CHR ''/'') (keyParts k)) = k"
    using Split_concat[OF sp] unfolding kp by simp
  show "list_all segment (keyParts k)" using assms by (simp add: validKey_def)
qed

lemma valueAt_freshRoot [simp]: "valueAt freshRoot q = []"
  by (simp add: valueAt_leaf)

lemma valueAt_insertAll:
  "distinct (map fst ins) \<Longrightarrow> [] \<notin> fst ` set ins \<Longrightarrow>
   valueAt (insertAll t ins) q = (case map_of ins q of Some v \<Rightarrow> v | None \<Rightarrow> valueAt t q)"
proof (induction ins arbitrary: t)
  case Nil
  then show ?case by simp
next
  case (Cons a ins)
  obtain p v where a: "a = (p, v)" by (cases a)
  have p: "p \<noteq> []" "p \<notin> fst ` set ins" and d: "distinct (map fst ins)" "[] \<notin> fst ` set ins"
    using Cons.prems unfolding a by auto
  have none: "map_of ins p = None" using p(2) by (simp add: map_of_eq_None_iff)
  show ?case
    unfolding a insertAll_Cons Cons.IH[OF d]
    using none by (simp add: valueAt_insertNode[OF p(1)] split: option.splits)
qed

lemma buildTree_insertAll:
  "buildTree kvs = insertAll freshRoot (map (\<lambda>kv. (keyParts (fst kv), snd kv)) kvs)"
  by (simp add: buildTree_def insertAll_def foldl_map)

section \<open>The empty segment list\<close>

text \<open>
  C10. An insertion whose segment list is empty leaves the tree unchanged: the loop
  body never runs, so the value is dropped and the root is not touched.
\<close>

theorem insertNode_empty_parts_unchanged: "insertNode root [] val = root"
  by simp

section \<open>Children keep the order of their creation\<close>

text \<open>
  C5. An insertion only appends: every node that was in the tree keeps its id, its name
  and its position, and its old children are the first children afterwards, in the same
  order (\<open>grows\<close>), for one insertion and so for any sequence of them. At the root, the
  names of the children are the old ones, followed by the first segment when no child
  had that name. Inserting the keys \<open>b\<close>, \<open>a\<close>, \<open>a/c\<close> in this order gives the
  top-level children \<open>b\<close>, \<open>a\<close> in this order, and \<open>a\<close> has the one child \<open>c\<close>.
\<close>

theorem children_keep_creation_order:
  "grows t (insertAll t ins)
   \<and> map Name (Children (insertNode t (part # rest) v)) =
       (if part \<in> Name ` set (Children t) then map Name (Children t)
        else map Name (Children t) @ [part])
   \<and> map Name (Children (insertAll freshRoot [([''b''], v1), ([''a''], v2), ([''a'', ''c''], v3)]))
       = [''b'', ''a'']
   \<and> map Name (Children (Children (insertAll freshRoot
         [([''b''], v1), ([''a''], v2), ([''a'', ''c''], v3)]) ! 1)) = [''c'']"
proof -
  have ex: "Children (insertAll freshRoot [([''b''], v1), ([''a''], v2), ([''a'', ''c''], v3)])
      = [TreeNode ''/b'' ''b'' v1 [], TreeNode ''/a'' ''a'' v2 [TreeNode ''/a/c'' ''c'' v3 []]]"
    by (simp add: insertAll_def freshRoot_def insertNode.simps setChildren_def setValue_def
        TrimSuffix_def HasSuffix_def)
  show ?thesis
    using grows_insertAll[of t ins] names_insertNode[of t part rest v] by (simp add: ex)
qed

section \<open>A path that is a prefix of another path\<close>

text \<open>
  C6. Inserting a path \<open>p\<close> with value \<open>v1\<close> and then a longer path \<open>p @ q\<close> with
  value \<open>v2\<close> leaves a node at \<open>p\<close> that has the value \<open>v1\<close> and children, and the
  value \<open>v2\<close> is found at \<open>p @ q\<close>. \<open>insertNode\<close> has no error result. For
  \<open>("a", "v1")\<close> then \<open>("a/b", "v2")\<close> on a fresh root the root has the one child
  \<open>a\<close> with value \<open>v1\<close>, and \<open>a\<close> has exactly one child, named \<open>b\<close>, with value
  \<open>v2\<close>.
\<close>

theorem prefix_coexistence:
  "(p \<noteq> [] \<and> q \<noteq> [] \<longrightarrow>
      (\<exists>n. lookupNode (insertNode (insertNode t p v1) (p @ q) v2) p = Some n
           \<and> Value n = v1 \<and> Children n \<noteq> [])
      \<and> valueAt (insertNode (insertNode t p v1) (p @ q) v2) (p @ q) = v2)
   \<and> map Name (Children (insertAll freshRoot [([''a''], ''v1''), ([''a'', ''b''], ''v2'')])) = [''a'']
   \<and> map Value (Children (insertAll freshRoot [([''a''], ''v1''), ([''a'', ''b''], ''v2'')])) = [''v1'']
   \<and> map Name (Children (Children (insertAll freshRoot [([''a''], ''v1''), ([''a'', ''b''], ''v2'')]) ! 0)) = [''b'']
   \<and> map Value (Children (Children (insertAll freshRoot [([''a''], ''v1''), ([''a'', ''b''], ''v2'')]) ! 0)) = [''v2'']"
proof -
  have ex: "Children (insertAll freshRoot [([''a''], ''v1''), ([''a'', ''b''], ''v2'')])
              = [TreeNode ''/a'' ''a'' ''v1'' [TreeNode ''/a/b'' ''b'' ''v2'' []]]"
    by (simp add: insertAll_def freshRoot_def insertNode.simps setChildren_def setValue_def
        TrimSuffix_def HasSuffix_def)
  have gen: "(\<exists>n. lookupNode (insertNode (insertNode t p v1) (p @ q) v2) p = Some n
           \<and> Value n = v1 \<and> Children n \<noteq> [])
      \<and> valueAt (insertNode (insertNode t p v1) (p @ q) v2) (p @ q) = v2"
    if p: "p \<noteq> []" and q: "q \<noteq> []"
  proof -
    obtain n where n: "lookupNode (insertNode t p v1) p = Some n"
      using lookupNode_insertNode_self by blast
    have "Value n = v1"
      using lookupNode_valueAt[OF n] valueAt_insertNode[OF p, of t v1 p] by simp
    moreover have "lookupNode (insertNode (insertNode t p v1) (p @ q) v2) p = Some (insertNode n q v2)"
      by (rule lookupNode_insertNode_prefix[OF n q])
    moreover have "Children (insertNode n q v2) \<noteq> []"
      by (rule Children_insertNode_nonempty[OF q])
    moreover have "valueAt (insertNode (insertNode t p v1) (p @ q) v2) (p @ q) = v2"
      using p by (simp add: valueAt_insertNode)
    ultimately show ?thesis by simp
  qed
  show ?thesis using gen by (simp add: ex)
qed

theorem prefix_coexistence_witness:
  "[''a''] \<noteq> [] \<and> [''b''] \<noteq> [] \<and>
   valueAt (insertNode (insertNode freshRoot [''a''] ''v1'') [''a'', ''b''] ''v2'') [''a'', ''b''] = ''v2''"
  using prefix_coexistence[of "[''a'']" "[''b'']" freshRoot "''v1''" "''v2''"] by simp

section \<open>Inserting the same path twice\<close>



section \<open>Point lookup\<close>

text \<open>
  C8. For a request parameter that passes the handler's check, a store response with no
  entry gives \<open>NotFound\<close> (404), which is neither the store-error response (500) nor a
  successful empty value (200); a response with at least one entry gives the value of
  the first entry. A store error gives \<open>InternalServerError\<close>, never \<open>NotFound\<close>:
  the handler answers \<open>NotFound\<close> exactly when the store answered with no entry, so
  an entry whose value is the empty string is a success with the empty value.
\<close>

theorem lookup_zero_matches_not_found:
  "param \<noteq> [] \<Longrightarrow>
   (cl (GetExact (TrimPrefix param ''/'')) = Inr [] \<longrightarrow>
      fst (FetchValueForKeyHandler cl param) = NotFound)
   \<and> NotFound \<noteq> InternalServerError
   \<and> NotFound \<noteq> OKValue []
   \<and> statusCode NotFound \<noteq> statusCode InternalServerError
   \<and> statusCode NotFound \<noteq> statusCode (OKValue [])
   \<and> (\<forall>kv kvs. cl (GetExact (TrimPrefix param ''/'')) = Inr (kv # kvs) \<longrightarrow>
         fst (FetchValueForKeyHandler cl param) = OKValue (snd kv))
   \<and> (\<forall>e. cl (GetExact (TrimPrefix param ''/'')) = Inl e \<longrightarrow>
         fst (FetchValueForKeyHandler cl param) = InternalServerError)
   \<and> (fst (FetchValueForKeyHandler cl param) = NotFound
        \<longleftrightarrow> cl (GetExact (TrimPrefix param ''/'')) = Inr [])
   \<and> snd (FetchValueForKeyHandler cl param) = [GetExact (TrimPrefix param ''/'')]"
  by (simp add: FetchValueForKeyHandler_def Let_def split: sum.splits list.splits)

theorem lookup_zero_matches_not_found_witness:
  "''/missing/key'' \<noteq> [] \<and>
   fst (FetchValueForKeyHandler (\<lambda>r. Inr []) ''/missing/key'') = NotFound \<and>
   fst (FetchValueForKeyHandler (\<lambda>r. Inr [(''k'', ''v'')]) ''/k'') = OKValue ''v'' \<and>
   fst (FetchValueForKeyHandler (\<lambda>r. Inr [(''k'', [])]) ''/k'') = OKValue [] \<and>
   fst (FetchValueForKeyHandler (\<lambda>r. Inl (StoreError ''timeout'')) ''/missing/key'')
     = InternalServerError \<and>
   fst (FetchValueForKeyHandler (\<lambda>r. Inl (StoreError ''timeout'')) ''/missing/key'')
     \<noteq> NotFound"
  using lookup_zero_matches_not_found[of "''/missing/key''" "\<lambda>r. Inr []"]
    lookup_zero_matches_not_found[of "''/k''" "\<lambda>r. Inr [(''k'', ''v'')]"]
    lookup_zero_matches_not_found[of "''/k''" "\<lambda>r. Inr [(''k'', [])]"]
    lookup_zero_matches_not_found[of "''/missing/key''" "\<lambda>r. Inl (StoreError ''timeout'')"]
  by simp

text \<open>
  C2. The handler tests the parameter for emptiness before it removes the leading
  separator. The empty parameter is rejected without a store request; the parameter
  \<open>"/"\<close> passes the test, becomes the empty key, and is sent to the store.
\<close>

theorem lookup_slash_reaches_store:
  "FetchValueForKeyHandler cl [] = (BadRequest, [])
   \<and> snd (FetchValueForKeyHandler cl ''/'') = [GetExact []]
   \<and> fst (FetchValueForKeyHandler cl ''/'') \<noteq> BadRequest"
  by (simp add: FetchValueForKeyHandler_def TrimPrefix_def HasPrefix_def Let_def
      split: sum.splits list.splits)

section \<open>Listing an empty store\<close>

text \<open>
  C9. When the store answers the listing request with no entries, the handler responds
  200 with the children of the fresh root: the empty sequence.
\<close>

theorem list_all_empty_store:
  "cl (GetPrefixSorted ''/'') = Inr [] \<Longrightarrow> fst (FetchKeysHandler cl) = OKKeys []
     \<and> statusCode (fst (FetchKeysHandler cl)) = 200"
  by (simp add: FetchKeysHandler_def buildTree_def freshRoot_def)

theorem list_all_empty_store_witness:
  "(\<lambda>r. Inr []) (GetPrefixSorted ''/'') = (Inr [] :: storeError + (string \<times> string) list)
   \<and> fst (FetchKeysHandler (\<lambda>r. Inr [])) = OKKeys []"
  using list_all_empty_store[of "\<lambda>r. Inr []"] by simp

section \<open>The id of a node\<close>

text \<open>
  C1, as the code has it. \<open>insertNode\<close> removes a trailing separator from the new id
  (\<open>strings.TrimSuffix\<close>), not a leading one. After any sequence of insertions into a
  fresh root, a node whose path from the root consists of segments (not empty, no
  separator) has as id a \<open>/\<close> followed by the segments of the path joined by \<open>/\<close>:
  the leading separator is kept, also for a child of the root, and there is no trailing
  separator. Its name is the last segment of the path.
\<close>

theorem node_id_is_slash_before_each_segment:
  assumes "(p, n) \<in> set (nodes_paths (insertAll freshRoot ins))" and "list_all segment p"
  shows "ID n = CHR ''/'' # Join p CHR ''/'' \<and> Name n = last p \<and> last (ID n) \<noteq> CHR ''/''"
proof -
  let ?T = "insertAll freshRoot ins"
  have ne: "p \<noteq> []" using assms(1) by (rule nodes_paths_nonempty)
  have "ID n = ID ?T @ concat (map ((#) CHR ''/'') p)"
    using nodes_paths_ID[OF idsLinked_insertAll assms] by simp
  then have id: "ID n = CHR ''/'' # Join p CHR ''/''"
    using ne by (simp add: slash_paths_Join)
  have "segment (last p)" using assms(2) ne by (simp add: list_all_iff)
  then have lp: "last p \<noteq> []" "CHR ''/'' \<notin> set (last p)" by (simp_all add: segment_def)
  have "last (last p) \<in> set (last p)" using lp(1) by simp
  with lp(2) have "last (last p) \<noteq> CHR ''/''" by auto
  then have "last (ID n) \<noteq> CHR ''/''"
    using last_Join[OF ne lp(1), of "CHR ''/''"] id by simp
  with id nodes_paths_Name[OF assms(1)] show ?thesis by simp
qed

theorem node_id_is_slash_before_each_segment_witness:
  "([''a'', ''b''], TreeNode ''/a/b'' ''b'' ''v'' [])
      \<in> set (nodes_paths (insertAll freshRoot [([''a'', ''b''], ''v'')]))
   \<and> list_all segment [''a'', ''b'']
   \<and> ID (TreeNode ''/a/b'' ''b'' ''v'' []) = CHR ''/'' # Join [''a'', ''b''] CHR ''/''"
proof -
  have m: "([''a'', ''b''], TreeNode ''/a/b'' ''b'' ''v'' [])
      \<in> set (nodes_paths (insertAll freshRoot [([''a'', ''b''], ''v'')]))"
    by (simp add: insertAll_def freshRoot_def insertNode.simps setChildren_def TrimSuffix_def
        HasSuffix_def)
  have s: "list_all segment [''a'', ''b'']" by (simp add: segment_def)
  show ?thesis using m s node_id_is_slash_before_each_segment[OF m s] by simp
qed

text \<open>
  The child \<open>a\<close> of the root has the id \<open>/a\<close>, which is not the joined path \<open>a\<close>.
\<close>

theorem root_child_id_keeps_leading_slash:
  "Children (insertNode freshRoot [''a''] ''v'') = [TreeNode ''/a'' ''a'' ''v'' []]
   \<and> ''/a'' \<noteq> Join [''a''] CHR ''/''"
  by (simp add: freshRoot_def insertNode.simps setChildren_def TrimSuffix_def HasSuffix_def)

section \<open>Ids are distinct\<close>

text \<open>
  C3, as the code has it. After any sequence of insertions into a fresh root whose
  segments are all not empty and without separator, the ids of the root and of all nodes
  below it are pairwise distinct.
\<close>

theorem ids_distinct_for_segment_paths:
  assumes "list_all (\<lambda>(p, v). list_all segment p) ins"
  shows "distinct (map ID (insertAll freshRoot ins # nodes (insertAll freshRoot ins)))"
  by (rule distinct_ids)
    (simp_all add: idsLinked_insertAll uniqNames_insertAll segNames_insertAll[OF _ assms])

theorem ids_distinct_for_segment_paths_witness:
  "list_all (\<lambda>(p, v). list_all segment p) [([''a''], ''1''), ([''a'', ''b''], ''2''), ([''c''], ''3'')]
   \<and> distinct (map ID (insertAll freshRoot [([''a''], ''1''), ([''a'', ''b''], ''2''), ([''c''], ''3'')]
        # nodes (insertAll freshRoot [([''a''], ''1''), ([''a'', ''b''], ''2''), ([''c''], ''3'')])))"
proof -
  have s: "list_all (\<lambda>(p, v). list_all segment p)
             [([''a''], ''1''), ([''a'', ''b''], ''2''), ([''c''], ''3'')]"
    by (simp add: segment_def)
  show ?thesis using s ids_distinct_for_segment_paths[OF s] by simp
qed

text \<open>
  With an empty segment the trailing separator is trimmed and the new node gets the id
  of its parent: the path \<open>a\<close>, \<open>""\<close> gives two nodes with the id \<open>/a\<close>.
\<close>

theorem empty_segment_repeats_parent_id:
  "map ID (nodes (insertNode freshRoot [''a'', []] ''v'')) = [''/a'', ''/a'']
   \<and> \<not> distinct (map ID (nodes (insertNode freshRoot [''a'', []] ''v'')))"
  by (simp add: freshRoot_def insertNode.simps setChildren_def TrimSuffix_def HasSuffix_def)

section \<open>Flattening the built tree\<close>

text \<open>
  C4, as the code has it. For key-value pairs with pairwise distinct keys, where every
  key is as the store returns it under the prefix \<open>/\<close> (it starts with the separator
  and none of its segments is empty) and every value is not empty, the \<open>(id, value)\<close>
  pairs of the nodes of the built tree that carry a value are exactly the input pairs,
  each once.
\<close>

theorem flatten_buildTree_roundtrip:
  assumes dk: "distinct (map fst kvs)"
    and ok: "list_all (\<lambda>kv. validKey (fst kv) \<and> snd kv \<noteq> []) kvs"
  shows "set (flatten (buildTree kvs)) = set kvs \<and> distinct (flatten (buildTree kvs))"
proof -
  let ?ins = "map (\<lambda>kv. (keyParts (fst kv), snd kv)) kvs"
  let ?T = "insertAll freshRoot ?ins"
  let ?idp = "\<lambda>p. concat (map ((#) CHR ''/'') p)"
  have T: "buildTree kvs = ?T" by (rule buildTree_insertAll)
  have valid: "validKey k" and nonempty: "v \<noteq> []" if "(k, v) \<in> set kvs" for k v
    using ok that by (auto simp: list_all_iff)
  have seg1: "list_all segment (keyParts (fst kv))" if "kv \<in> set kvs" for kv
    using validKey_parts(3)[OF valid[of "fst kv" "snd kv"]] that by simp
  have segs: "list_all (\<lambda>(p, v). list_all segment p) ?ins"
    unfolding list_all_iff using seg1 by (simp add: list_all_iff)
  have iT: "idsLinked ?T" by (simp add: idsLinked_insertAll)
  have uT: "uniqNames ?T" by (simp add: uniqNames_insertAll)
  have sT: "segNames ?T" by (rule segNames_insertAll[OF _ segs]) simp
  have recov: "?idp (keyParts k) = k" and kne: "keyParts k \<noteq> []" if "k \<in> set (map fst kvs)" for k
  proof -
    from that obtain v where "(k, v) \<in> set kvs" by auto
    then have "validKey k" by (rule valid)
    then show "?idp (keyParts k) = k" and "keyParts k \<noteq> []"
      by (rule validKey_parts(2), rule validKey_parts(1))
  qed
  have "inj_on keyParts (set (map fst kvs))"
  proof (rule inj_onI)
    fix k k' assume a: "k \<in> set (map fst kvs)" "k' \<in> set (map fst kvs)" "keyParts k = keyParts k'"
    have "k = ?idp (keyParts k)" by (rule recov[OF a(1), symmetric])
    also have "\<dots> = ?idp (keyParts k')" by (simp only: a(3))
    also have "\<dots> = k'" by (rule recov[OF a(2)])
    finally show "k = k'" .
  qed
  then have "distinct (map keyParts (map fst kvs))" by (rule distinct_mapI[OF dk])
  then have di: "distinct (map fst ?ins)" by (simp add: comp_def)
  have "[] \<notin> fst ` set ?ins"
  proof
    assume "[] \<in> fst ` set ?ins"
    then obtain k where "k \<in> set (map fst kvs)" "keyParts k = []" by force
    with kne show False by blast
  qed
  then have val: "valueAt ?T q = (case map_of ?ins q of Some v \<Rightarrow> v | None \<Rightarrow> [])" for q
    using valueAt_insertAll[OF di, of freshRoot q] by (simp split: option.splits)
  have idn: "ID n = ?idp p" if "(p, n) \<in> set (nodes_paths ?T)" for p n
    using nodes_paths_ID[OF iT that nodes_paths_segments[OF sT that]] by simp
  have sub: "set (flatten ?T) \<subseteq> set kvs"
  proof
    fix x assume "x \<in> set (flatten ?T)"
    then obtain n where n: "n \<in> set (nodes ?T)" "Value n \<noteq> []" "x = (ID n, Value n)"
      by (auto simp: flatten_def)
    from n(1) obtain p where p: "(p, n) \<in> set (nodes_paths ?T)"
      unfolding nodes_paths_snd[symmetric] by auto
    have "valueAt ?T p = Value n"
      using nodes_paths_lookupNode[OF uT p] by (simp add: valueAt_def)
    with n(2) have "map_of ?ins p = Some (Value n)"
      unfolding val by (simp split: option.splits)
    then have "(p, Value n) \<in> set ?ins" by (rule map_of_SomeD)
    then obtain k where k: "(k, Value n) \<in> set kvs" "p = keyParts k" by auto
    have "ID n = k" using idn[OF p] validKey_parts(2)[OF valid[OF k(1)]] k(2) by simp
    with k(1) n(3) show "x \<in> set kvs" by simp
  qed
  have sup: "set kvs \<subseteq> set (flatten ?T)"
  proof
    fix x assume x: "x \<in> set kvs"
    obtain k v where kv: "x = (k, v)" by (cases x)
    let ?p = "keyParts k"
    have v: "v \<noteq> []" and vk: "validKey k" using x nonempty valid unfolding kv by auto
    have "(?p, v) \<in> set ?ins" using x unfolding kv by force
    then have "map_of ?ins ?p = Some v" using di by (simp add: map_of_is_SomeI)
    then have va: "valueAt ?T ?p = v" unfolding val by simp
    with v obtain n where n: "lookupNode ?T ?p = Some n" "Value n = v"
      by (auto simp: valueAt_def split: option.splits)
    have p: "(?p, n) \<in> set (nodes_paths ?T)"
      using lookupNode_nodes_paths[OF n(1) validKey_parts(1)[OF vk]] .
    then have "n \<in> set (nodes ?T)"
      unfolding nodes_paths_snd[symmetric] by force
    moreover have "ID n = k" using idn[OF p] validKey_parts(2)[OF vk] by simp
    ultimately show "x \<in> set (flatten ?T)"
      using n(2) v unfolding kv by (force simp: flatten_def)
  qed
  have "distinct (map ID (nodes ?T))"
    using distinct_ids[OF iT uT sT] by simp
  then have dn: "distinct (nodes ?T)" and inj: "inj_on ID (set (nodes ?T))"
    by (simp_all add: distinct_map)
  have "inj_on (\<lambda>n. (ID n, Value n)) (set (filter (\<lambda>n. Value n \<noteq> []) (nodes ?T)))"
    using inj by (auto simp: inj_on_def)
  then have "distinct (flatten ?T)"
    unfolding flatten_def using dn by (intro distinct_mapI) simp_all
  with sub sup show ?thesis unfolding T by blast
qed

theorem flatten_buildTree_roundtrip_witness:
  "distinct (map fst [(''/a'', ''1''), (''/a/b'', ''2'')])
   \<and> list_all (\<lambda>kv. validKey (fst kv) \<and> snd kv \<noteq> []) [(''/a'', ''1''), (''/a/b'', ''2'')]
   \<and> set (flatten (buildTree [(''/a'', ''1''), (''/a/b'', ''2'')]))
       = set [(''/a'', ''1''), (''/a/b'', ''2'')]"
proof -
  have d: "distinct (map fst [(''/a'', ''1''), (''/a/b'', ''2'')])" by simp
  have v: "list_all (\<lambda>kv. validKey (fst kv) \<and> snd kv \<noteq> []) [(''/a'', ''1''), (''/a/b'', ''2'')]"
    by (simp add: validKey_def HasPrefix_def keyParts_def segment_def)
  show ?thesis using d v flatten_buildTree_roundtrip[OF d v] by simp
qed

text \<open>
  A pair with the empty value leaves a node that carries no value, and a key with a
  trailing separator comes back without it.
\<close>

theorem roundtrip_loses_empty_value_and_trailing_separator:
  "distinct (map fst [(''/a'', [])])
   \<and> flatten (buildTree [(''/a'', [])]) = []
   \<and> set (flatten (buildTree [(''/a'', [])])) \<noteq> set [(''/a'', [])]
   \<and> distinct (map fst [(''/a/'', ''v'')])
   \<and> flatten (buildTree [(''/a/'', ''v'')]) = [(''/a'', ''v'')]
   \<and> set (flatten (buildTree [(''/a/'', ''v'')])) \<noteq> set [(''/a/'', ''v'')]"
  by (simp add: buildTree_def keyParts_def flatten_def freshRoot_def insertNode.simps
      setChildren_def TrimSuffix_def HasSuffix_def)

end
